theory Spec2Isabelle
  imports Main "HOL-Library.Monad_Syntax"
begin

section \<open>Memory allocation simulation: blocks, heap and allocator\<close>

text \<open>
  The source keeps its blocks as Python objects that point at each other through
  \<^verbatim>\<open>prev\<close> and \<^verbatim>\<open>next\<close>. Objects are modelled by an explicit store:
  a reference is the position of the object in the store, the store only grows (an
  object that is no longer linked stays where it is, as it does for a caller that still
  holds it), and \<^verbatim>\<open>None\<close> is \<open>None\<close>.
\<close>

type_synonym ref = nat

record Block =
  start :: int
  size_b :: int
  free :: bool
  prev :: "ref option"
  next_b :: "ref option"

type_synonym heap = "Block list"

record MemoryAllocator =
  total_memory :: int
  head :: ref

text \<open>\<^verbatim>\<open>Block(start, size)\<close>: a fresh object, free, with no neighbours.\<close>

definition Block_init :: "int \<Rightarrow> int \<Rightarrow> heap \<Rightarrow> ref \<times> heap" where
  "Block_init st sz h =
     (length h, h @ [\<lparr>start = st, size_b = sz, free = True, prev = None, next_b = None\<rparr>])"

text \<open>\<^verbatim>\<open>MemoryAllocator(total_memory)\<close>: no check of the argument.\<close>

definition MemoryAllocator_init :: "int \<Rightarrow> heap \<Rightarrow> MemoryAllocator \<times> heap" where
  "MemoryAllocator_init tm h =
     (let (b, h') = Block_init 0 tm h
      in (\<lparr>total_memory = tm, head = b\<rparr>, h'))"

subsection \<open>Field assignments\<close>

definition set_size :: "heap \<Rightarrow> ref \<Rightarrow> int \<Rightarrow> heap" where
  "set_size h r v = h[r := (h ! r)\<lparr>size_b := v\<rparr>]"

definition set_free :: "heap \<Rightarrow> ref \<Rightarrow> bool \<Rightarrow> heap" where
  "set_free h r v = h[r := (h ! r)\<lparr>free := v\<rparr>]"

definition set_prev :: "heap \<Rightarrow> ref \<Rightarrow> ref option \<Rightarrow> heap" where
  "set_prev h r v = h[r := (h ! r)\<lparr>prev := v\<rparr>]"

definition set_next :: "heap \<Rightarrow> ref \<Rightarrow> ref option \<Rightarrow> heap" where
  "set_next h r v = h[r := (h ! r)\<lparr>next_b := v\<rparr>]"

subsection \<open>\<^verbatim>\<open>_allocate_block\<close>\<close>

definition allocate_block :: "heap \<Rightarrow> ref \<Rightarrow> int \<Rightarrow> ref \<times> heap" where
  "allocate_block h block sz =
     (if size_b (h ! block) = sz then (block, set_free h block False)
      else
        let (new_block, h1) = Block_init (start (h ! block) + sz) (size_b (h ! block) - sz) h;
            h2 = set_next h1 new_block (next_b (h1 ! block));
            h3 = set_prev h2 new_block (Some block);
            h4 = (case next_b (h3 ! block) of
                    None \<Rightarrow> h3
                  | Some n \<Rightarrow> set_prev h3 n (Some new_block));
            h5 = set_next h4 block (Some new_block);
            h6 = set_size h5 block sz;
            h7 = set_free h6 block False
        in (block, h7))"

subsection \<open>\<^verbatim>\<open>first_fit\<close>\<close>

text \<open>
  The scan follows \<^verbatim>\<open>next\<close> until it meets \<^verbatim>\<open>None\<close>; on a store whose
  links form a cycle it would not return, which is the value \<open>None\<close> of the model.
  The result is the returned block (or \<^verbatim>\<open>None\<close>) together with the store.
\<close>

partial_function (option) first_fit_loop ::
  "heap \<Rightarrow> ref option \<Rightarrow> int \<Rightarrow> (ref option \<times> heap) option" where
  "first_fit_loop h current sz =
     (case current of
        None \<Rightarrow> Some (None, h)
      | Some c \<Rightarrow>
          if free (h ! c) \<and> size_b (h ! c) \<ge> sz
          then (case allocate_block h c sz of (b, h') \<Rightarrow> Some (Some b, h'))
          else first_fit_loop h (next_b (h ! c)) sz)"

declare first_fit_loop.simps [code]

definition first_fit :: "heap \<Rightarrow> MemoryAllocator \<Rightarrow> int \<Rightarrow> (ref option \<times> heap) option" where
  "first_fit h a sz = first_fit_loop h (Some (head a)) sz"

subsection \<open>\<^verbatim>\<open>free_block\<close>\<close>

definition free_block :: "heap \<Rightarrow> ref \<Rightarrow> heap" where
  "free_block h block =
     (let h1 = set_free h block True;
          h2 = (case next_b (h1 ! block) of
                  None \<Rightarrow> h1
                | Some n \<Rightarrow>
                    if free (h1 ! n) then
                      let g1 = set_size h1 block (size_b (h1 ! block) + size_b (h1 ! n));
                          g2 = set_next g1 block (next_b (g1 ! n))
                      in (case next_b (g2 ! block) of
                            None \<Rightarrow> g2
                          | Some m \<Rightarrow> set_prev g2 m (Some block))
                    else h1)
      in (case prev (h2 ! block) of
            None \<Rightarrow> h2
          | Some p \<Rightarrow>
              if free (h2 ! p) then
                let g1 = set_size h2 p (size_b (h2 ! p) + size_b (h2 ! block));
                    g2 = set_next g1 p (next_b (g1 ! block))
                in (case next_b (g2 ! block) of
                      None \<Rightarrow> g2
                    | Some m \<Rightarrow> set_prev g2 m (prev (g2 ! block)))
              else h2))"

subsection \<open>\<^verbatim>\<open>print_memory\<close>\<close>

text \<open>
  The traversal of \<^verbatim>\<open>print_memory\<close>: the blocks met from \<^verbatim>\<open>current\<close>
  along \<^verbatim>\<open>next\<close>, and for each one the line that is printed: first address, last
  address, size and whether it is free.
\<close>

partial_function (option) walk :: "heap \<Rightarrow> ref option \<Rightarrow> ref list option" where
  "walk h current =
     (case current of
        None \<Rightarrow> Some []
      | Some c \<Rightarrow> Option.bind (walk h (next_b (h ! c))) (\<lambda>rs. Some (c # rs)))"

declare walk.simps [code]

definition line :: "Block \<Rightarrow> int \<times> int \<times> int \<times> bool" where
  "line b = (start b, start b + size_b b - 1, size_b b, free b)"

definition print_memory :: "heap \<Rightarrow> MemoryAllocator \<Rightarrow> (int \<times> int \<times> int \<times> bool) list option" where
  "print_memory h a = map_option (map (\<lambda>r. line (h ! r))) (walk h (Some (head a)))"

subsection \<open>The simulation driver\<close>

text \<open>
  The driver of the source keeps the blocks it was given in the list
  \<^verbatim>\<open>allocated\<close>, appends a block when \<^verbatim>\<open>first_fit\<close> returns one, and frees
  a member of that list, which it then removes. Its random choices are the input here:
  an action is an allocation of some size or the release of some block.
\<close>

record sim =
  store :: heap
  allocator :: MemoryAllocator
  allocated :: "ref list"

datatype action = Alloc int | Free ref

definition new_sim :: "int \<Rightarrow> sim" where
  "new_sim tm =
     (let (a, h) = MemoryAllocator_init tm []
      in \<lparr>store = h, allocator = a, allocated = []\<rparr>)"

fun step :: "sim \<Rightarrow> action \<Rightarrow> sim option" where
  "step s (Alloc sz) =
     (case first_fit (store s) (allocator s) sz of
        None \<Rightarrow> None
      | Some (None, h') \<Rightarrow> Some (s\<lparr>store := h'\<rparr>)
      | Some (Some b, h') \<Rightarrow> Some (s\<lparr>store := h', allocated := allocated s @ [b]\<rparr>))"
| "step s (Free b) =
     Some (s\<lparr>store := free_block (store s) b, allocated := remove1 b (allocated s)\<rparr>)"

fun run :: "sim \<Rightarrow> action list \<Rightarrow> sim option" where
  "run s [] = Some s"
| "run s (a # as) = (case step s a of None \<Rightarrow> None | Some s' \<Rightarrow> run s' as)"

text \<open>
  Proper use: sizes are positive and only a block held in \<^verbatim>\<open>allocated\<close> is freed.
  A call that does not return ends the run and asks nothing of the actions after it.
\<close>

fun proper :: "sim \<Rightarrow> action \<Rightarrow> bool" where
  "proper s (Alloc sz) = (0 < sz)"
| "proper s (Free b) = (b \<in> set (allocated s))"

fun proper_run :: "sim \<Rightarrow> action list \<Rightarrow> bool" where
  "proper_run s [] = True"
| "proper_run s (a # as) =
     (proper s a \<and> (case step s a of None \<Rightarrow> True | Some s' \<Rightarrow> proper_run s' as))"

text \<open>The blocks of the arena in traversal order.\<close>

definition blocks :: "sim \<Rightarrow> Block list option" where
  "blocks s = map_option (map (\<lambda>r. store s ! r)) (walk (store s) (Some (head (allocator s))))"

fun seg :: "heap \<Rightarrow> ref option \<Rightarrow> ref option \<Rightarrow> ref list \<Rightarrow> ref option \<Rightarrow> bool" where
  "seg h pv p [] q = (p = q)"
| "seg h pv p (r # rs) q =
     (p = Some r \<and> r < length h \<and> prev (h ! r) = pv \<and> seg h (Some r) (next_b (h ! r)) rs q)"

definition lastp :: "ref option \<Rightarrow> ref list \<Rightarrow> ref option" where
  "lastp pv rs = (if rs = [] then pv else Some (last rs))"

definition fits :: "heap \<Rightarrow> int \<Rightarrow> ref \<Rightarrow> bool" where
  "fits h sz r = (free (h ! r) \<and> sz \<le> size_b (h ! r))"

definition merge_next :: "heap \<Rightarrow> ref \<Rightarrow> heap" where
  "merge_next h block =
     (case next_b (h ! block) of
        None \<Rightarrow> h
      | Some n \<Rightarrow>
          if free (h ! n) then
            let g1 = set_size h block (size_b (h ! block) + size_b (h ! n));
                g2 = set_next g1 block (next_b (g1 ! n))
            in (case next_b (g2 ! block) of
                  None \<Rightarrow> g2
                | Some m \<Rightarrow> set_prev g2 m (Some block))
          else h)"

definition merge_prev :: "heap \<Rightarrow> ref \<Rightarrow> heap" where
  "merge_prev h block =
     (case prev (h ! block) of
        None \<Rightarrow> h
      | Some p \<Rightarrow>
          if free (h ! p) then
            let g1 = set_size h p (size_b (h ! p) + size_b (h ! block));
                g2 = set_next g1 p (next_b (g1 ! block))
            in (case next_b (g2 ! block) of
                  None \<Rightarrow> g2
                | Some m \<Rightarrow> set_prev g2 m (prev (g2 ! block)))
          else h)"

type_synonym view = "int \<times> int \<times> bool"

definition view :: "Block \<Rightarrow> view" where
  "view b = (start b, size_b b, free b)"

definition views :: "heap \<Rightarrow> ref list \<Rightarrow> view list" where
  "views h rs = map (\<lambda>r. view (h ! r)) rs"

fun tiled :: "int \<Rightarrow> view list \<Rightarrow> bool" where
  "tiled s [] = True"
| "tiled s ((st, sz, f) # vs) = (st = s \<and> 0 < sz \<and> tiled (s + sz) vs)"

fun extent :: "view list \<Rightarrow> int" where
  "extent [] = 0"
| "extent ((st, sz, f) # vs) = sz + extent vs"

fun naf :: "bool \<Rightarrow> view list \<Rightarrow> bool" where
  "naf pf [] = True"
| "naf pf ((st, sz, f) # vs) = (\<not> (pf \<and> f) \<and> naf f vs)"

definition lastf :: "bool \<Rightarrow> view list \<Rightarrow> bool" where
  "lastf pf vs = (if vs = [] then pf else snd (snd (last vs)))"

(*DEFS-END*)

section \<open>Properties\<close>

lemma lastp_simps [simp]:
  "lastp pv [] = pv"
  "lastp pv (r # rs) = lastp (Some r) rs"
  "lastp pv (rs @ [r]) = Some r"
  by (simp_all add: lastp_def)

lemma seg_append:
  "seg h pv p (xs @ ys) q = (\<exists>m. seg h pv p xs m \<and> seg h (lastp pv xs) m ys q)"
  by (induction xs arbitrary: pv p) auto

lemma seg_frame:
  assumes "seg h pv p rs q"
    and "\<And>r. r \<in> set rs \<Longrightarrow> r < length h \<Longrightarrow>
           r < length h' \<and> prev (h' ! r) = prev (h ! r) \<and> next_b (h' ! r) = next_b (h ! r)"
  shows "seg h' pv p rs q"
  using assms by (induction rs arbitrary: pv p) auto

lemma seg_bound: "seg h pv p rs q \<Longrightarrow> r \<in> set rs \<Longrightarrow> r < length h"
  by (induction rs arbitrary: pv p) auto

lemma seg_walk: "seg h pv p rs None \<Longrightarrow> walk h p = Some rs"
proof (induction rs arbitrary: pv p)
  case Nil
  then show ?case by (simp add: walk.simps)
next
  case (Cons r rs)
  then have "walk h (next_b (h ! r)) = Some rs" and "p = Some r" by auto
  then show ?case by (subst walk.simps) simp
qed

lemma fst_allocate_block [simp]: "fst (allocate_block h c sz) = c"
  by (simp add: allocate_block_def Let_def split: prod.splits)

lemma first_fit_loop_walk:
  "walk h p = Some rs \<Longrightarrow>
   first_fit_loop h p sz =
     Some (case find (fits h sz) rs of
             None \<Rightarrow> (None, h)
           | Some c \<Rightarrow> (Some c, snd (allocate_block h c sz)))"
proof (induction rs arbitrary: p)
  case Nil
  then have "p = None"
    by (subst (asm) walk.simps) (auto split: option.splits bind_splits)
  then show ?case by (simp add: first_fit_loop.simps)
next
  case (Cons r rs)
  from Cons.prems have p: "p = Some r" and w: "walk h (next_b (h ! r)) = Some rs"
    by (subst (asm) walk.simps; auto split: option.splits bind_splits)+
  show ?case
  proof (cases "fits h sz r")
    case True
    then show ?thesis using p
      by (subst first_fit_loop.simps) (simp add: fits_def case_prod_beta prod_eq_iff)
  next
    case False
    then have "\<not> (free (h ! r) \<and> sz \<le> size_b (h ! r))" by (simp add: fits_def)
    with False show ?thesis using p Cons.IH [OF w]
      by (subst first_fit_loop.simps) auto
  qed
qed

lemma find_split:
  "find P rs = Some c \<Longrightarrow> \<exists>xs ys. rs = xs @ c # ys \<and> P c \<and> (\<forall>x\<in>set xs. \<not> P x)"
proof (induction rs)
  case Nil
  then show ?case by simp
next
  case (Cons r rs)
  show ?case
  proof (cases "P r")
    case True
    with Cons.prems have "r = c" by simp
    with True show ?thesis by (intro exI [of _ "[]"] exI [of _ rs]) auto
  next
    case False
    with Cons obtain xs ys where "rs = xs @ c # ys" "P c" "\<forall>x\<in>set xs. \<not> P x" by auto
    with False show ?thesis by (intro exI [of _ "r # xs"] exI [of _ ys]) auto
  qed
qed

lemmas heap_ops = Block_init_def set_size_def set_free_def set_prev_def set_next_def

lemma allocate_block_exact:
  "size_b (h ! c) = sz \<Longrightarrow> allocate_block h c sz = (c, h[c := (h ! c)\<lparr>free := False\<rparr>])"
  by (simp add: allocate_block_def set_free_def)

lemma allocate_block_split_length:
  "size_b (h ! c) \<noteq> sz \<Longrightarrow> length (snd (allocate_block h c sz)) = Suc (length h)"
  by (simp add: allocate_block_def heap_ops Let_def split: option.splits)

lemma allocate_block_split_self:
  assumes "size_b (h ! c) \<noteq> sz" "c < length h"
    and "\<And>n. next_b (h ! c) = Some n \<Longrightarrow> n < length h \<and> n \<noteq> c"
  shows "snd (allocate_block h c sz) ! c =
           (h ! c)\<lparr>next_b := Some (length h), size_b := sz, free := False\<rparr>"
  using assms
  by (auto simp: allocate_block_def heap_ops Let_def nth_append nth_list_update split: option.splits)

lemma allocate_block_split_new:
  assumes "size_b (h ! c) \<noteq> sz" "c < length h"
    and "\<And>n. next_b (h ! c) = Some n \<Longrightarrow> n < length h \<and> n \<noteq> c"
  shows "snd (allocate_block h c sz) ! length h =
           \<lparr>start = start (h ! c) + sz, size_b = size_b (h ! c) - sz, free = True,
            prev = Some c, next_b = next_b (h ! c)\<rparr>"
  using assms
  by (auto simp: allocate_block_def heap_ops Let_def nth_append nth_list_update split: option.splits)

lemma allocate_block_split_next:
  assumes "size_b (h ! c) \<noteq> sz" "c < length h" "next_b (h ! c) = Some n" "n < length h" "n \<noteq> c"
  shows "snd (allocate_block h c sz) ! n = (h ! n)\<lparr>prev := Some (length h)\<rparr>"
  using assms
  by (auto simp: allocate_block_def heap_ops Let_def nth_append nth_list_update split: option.splits)

lemma allocate_block_split_other:
  assumes "size_b (h ! c) \<noteq> sz" "c < length h" "r < length h" "r \<noteq> c" "next_b (h ! c) \<noteq> Some r"
    and "\<And>n. next_b (h ! c) = Some n \<Longrightarrow> n < length h \<and> n \<noteq> c"
  shows "snd (allocate_block h c sz) ! r = h ! r"
  using assms
  by (auto simp: allocate_block_def heap_ops Let_def nth_append nth_list_update split: option.splits)

lemma seg_mid:
  "seg h pv p (xs @ c # ys) q =
     (seg h pv p xs (Some c) \<and> c < length h \<and> prev (h ! c) = lastp pv xs \<and>
      seg h (Some c) (next_b (h ! c)) ys q)"
  by (auto simp: seg_append)

lemma seg_next_in:
  "seg h pv p ys q \<Longrightarrow> p = Some n \<Longrightarrow> q = None \<Longrightarrow> n \<in> set ys"
  by (cases ys) auto

lemma allocate_block_split_seg:
  assumes s: "seg h None (Some hp) (xs @ c # ys) None"
    and d: "distinct (xs @ c # ys)"
    and ne: "size_b (h ! c) \<noteq> sz"
  shows "seg (snd (allocate_block h c sz)) None (Some hp) (xs @ c # length h # ys) None"
proof -
  let ?h = "snd (allocate_block h c sz)"
  from s have sx: "seg h None (Some hp) xs (Some c)" and c: "c < length h"
    and pc: "prev (h ! c) = lastp None xs" and sy: "seg h (Some c) (next_b (h ! c)) ys None"
    by (simp_all add: seg_mid)
  have nx: "n < length h \<and> n \<noteq> c \<and> n \<in> set ys" if "next_b (h ! c) = Some n" for n
  proof -
    from sy that have "n \<in> set ys" by (rule seg_next_in) simp
    with d sy show ?thesis by (auto dest: seg_bound)
  qed
  have len: "length ?h = Suc (length h)" using ne by (rule allocate_block_split_length)
  have self: "?h ! c = (h ! c)\<lparr>next_b := Some (length h), size_b := sz, free := False\<rparr>"
    using ne c nx by (intro allocate_block_split_self) auto
  have new: "?h ! length h = \<lparr>start = start (h ! c) + sz, size_b = size_b (h ! c) - sz,
      free = True, prev = Some c, next_b = next_b (h ! c)\<rparr>"
    using ne c nx by (intro allocate_block_split_new) auto
  have other: "?h ! r = h ! r" if "r < length h" "r \<noteq> c" "next_b (h ! c) \<noteq> Some r" for r
    using ne c that nx by (intro allocate_block_split_other) auto
  have fx: "seg ?h None (Some hp) xs (Some c)"
  proof (rule seg_frame [OF sx])
    fix r assume r: "r \<in> set xs" "r < length h"
    with d have "r \<noteq> c" "r \<notin> set ys" by auto
    with nx have "next_b (h ! c) \<noteq> Some r" by blast
    with r \<open>r \<noteq> c\<close> show "r < length ?h \<and> prev (?h ! r) = prev (h ! r) \<and> next_b (?h ! r) = next_b (h ! r)"
      by (simp add: other len)
  qed
  have fy: "seg ?h (Some (length h)) (next_b (h ! c)) ys None"
  proof (cases ys)
    case Nil
    with sy show ?thesis by simp
  next
    case (Cons n ys')
    with sy have n: "next_b (h ! c) = Some n" "n < length h" "prev (h ! n) = Some c"
      and sy': "seg h (Some n) (next_b (h ! n)) ys' None" by auto
    from nx [OF n(1)] have "n \<noteq> c" by simp
    have hn: "?h ! n = (h ! n)\<lparr>prev := Some (length h)\<rparr>"
      using ne c n(1,2) \<open>n \<noteq> c\<close> by (rule allocate_block_split_next)
    have "seg ?h (Some n) (next_b (h ! n)) ys' None"
    proof (rule seg_frame [OF sy'])
      fix r assume r: "r \<in> set ys'" "r < length h"
      with d Cons have "r \<noteq> c" "r \<noteq> n" by auto
      with n have "next_b (h ! c) \<noteq> Some r" by simp
      with r \<open>r \<noteq> c\<close> show "r < length ?h \<and> prev (?h ! r) = prev (h ! r) \<and> next_b (?h ! r) = next_b (h ! r)"
        by (simp add: other len)
    qed
    with n Cons hn len show ?thesis by simp
  qed
  from fx fy c pc show ?thesis
    by (simp add: seg_mid self new len)
qed

lemma free_block_phases:
  "free_block h b = merge_prev (merge_next (set_free h b True) b) b"
  by (simp add: free_block_def merge_next_def merge_prev_def Let_def)

lemma merge_next_length [simp]: "length (merge_next h b) = length h"
  by (simp add: merge_next_def heap_ops Let_def split: option.splits)

lemma merge_prev_length [simp]: "length (merge_prev h b) = length h"
  by (simp add: merge_prev_def heap_ops Let_def split: option.splits)

lemma merge_next_self:
  assumes "b < length h" "next_b (h ! b) = Some n" "free (h ! n)" "n < length h" "n \<noteq> b"
    and "\<And>m. next_b (h ! n) = Some m \<Longrightarrow> m < length h \<and> m \<noteq> b \<and> m \<noteq> n"
  shows "merge_next h b ! b = (h ! b)\<lparr>size_b := size_b (h ! b) + size_b (h ! n), next_b := next_b (h ! n)\<rparr>"
  using assms
  by (auto simp: merge_next_def heap_ops Let_def nth_list_update split: option.splits)

lemma merge_next_succ:
  assumes "b < length h" "next_b (h ! b) = Some n" "free (h ! n)" "n < length h" "n \<noteq> b"
    and "next_b (h ! n) = Some m" "m < length h" "m \<noteq> b" "m \<noteq> n"
  shows "merge_next h b ! m = (h ! m)\<lparr>prev := Some b\<rparr>"
  using assms
  by (auto simp: merge_next_def heap_ops Let_def nth_list_update split: option.splits)

lemma merge_next_other:
  assumes "b < length h" "next_b (h ! b) = Some n" "free (h ! n)" "n < length h" "n \<noteq> b"
    and "\<And>m. next_b (h ! n) = Some m \<Longrightarrow> m < length h \<and> m \<noteq> b \<and> m \<noteq> n"
    and "r \<noteq> b" "next_b (h ! n) \<noteq> Some r"
  shows "merge_next h b ! r = h ! r"
  using assms
  by (auto simp: merge_next_def heap_ops Let_def nth_list_update split: option.splits)

lemma merge_prev_self:
  assumes "b < length h" "prev (h ! b) = Some p" "free (h ! p)" "p < length h" "p \<noteq> b"
    and "\<And>m. next_b (h ! b) = Some m \<Longrightarrow> m < length h \<and> m \<noteq> b \<and> m \<noteq> p"
  shows "merge_prev h b ! p = (h ! p)\<lparr>size_b := size_b (h ! p) + size_b (h ! b), next_b := next_b (h ! b)\<rparr>"
  using assms
  by (auto simp: merge_prev_def heap_ops Let_def nth_list_update split: option.splits)

lemma merge_prev_succ:
  assumes "b < length h" "prev (h ! b) = Some p" "free (h ! p)" "p < length h" "p \<noteq> b"
    and "next_b (h ! b) = Some m" "m < length h" "m \<noteq> b" "m \<noteq> p"
  shows "merge_prev h b ! m = (h ! m)\<lparr>prev := Some p\<rparr>"
  using assms
  by (auto simp: merge_prev_def heap_ops Let_def nth_list_update split: option.splits)

lemma merge_prev_other:
  assumes "b < length h" "prev (h ! b) = Some p" "free (h ! p)" "p < length h" "p \<noteq> b"
    and "\<And>m. next_b (h ! b) = Some m \<Longrightarrow> m < length h \<and> m \<noteq> b \<and> m \<noteq> p"
    and "r \<noteq> p" "next_b (h ! b) \<noteq> Some r"
  shows "merge_prev h b ! r = h ! r"
  using assms
  by (auto simp: merge_prev_def heap_ops Let_def nth_list_update split: option.splits)

lemma views_simps [simp]:
  "views h [] = []"
  "views h (r # rs) = view (h ! r) # views h rs"
  "views h (xs @ ys) = views h xs @ views h ys"
  by (simp_all add: views_def)

lemma views_cong:
  "(\<And>r. r \<in> set rs \<Longrightarrow> view (h' ! r) = view (h ! r)) \<Longrightarrow> views h' rs = views h rs"
  by (simp add: views_def)

lemma nth_upd:
  "h[i := x] ! r = (if r = i \<and> i < length h then x else h ! r)"
  by (cases "i < length h") (auto simp: nth_list_update list_update_beyond)

lemma merge_next_view:
  "r \<noteq> b \<Longrightarrow> view (merge_next h b ! r) = view (h ! r)"
  by (auto simp: merge_next_def heap_ops Let_def nth_upd view_def split: option.splits)

lemma merge_prev_view:
  "prev (h ! b) \<noteq> Some r \<Longrightarrow> view (merge_prev h b ! r) = view (h ! r)"
  by (auto simp: merge_prev_def heap_ops Let_def nth_upd view_def split: option.splits)

lemma allocate_block_view:
  "r \<noteq> c \<Longrightarrow> r < length h \<Longrightarrow> view (snd (allocate_block h c sz) ! r) = view (h ! r)"
  by (auto simp: allocate_block_def heap_ops Let_def nth_upd view_def nth_append split: option.splits)

lemma set_free_view:
  "r \<noteq> b \<Longrightarrow> set_free h b v ! r = h ! r"
  by (simp add: set_free_def)

lemma set_free_seg:
  "seg h pv p rs q \<Longrightarrow> seg (set_free h b v) pv p rs q"
  by (erule seg_frame) (auto simp: set_free_def nth_upd)

lemma merge_next_seg:
  assumes s: "seg h None (Some hp) (xs @ b # n # ys) None"
    and d: "distinct (xs @ b # n # ys)"
    and f: "free (h ! n)"
  shows "seg (merge_next h b) None (Some hp) (xs @ b # ys) None"
    and "merge_next h b ! b = (h ! b)\<lparr>size_b := size_b (h ! b) + size_b (h ! n), next_b := next_b (h ! n)\<rparr>"
proof -
  let ?h = "merge_next h b"
  from s have sx: "seg h None (Some hp) xs (Some b)" and b: "b < length h"
    and pb: "prev (h ! b) = lastp None xs" and nb: "next_b (h ! b) = Some n"
    and n: "n < length h" and sy: "seg h (Some n) (next_b (h ! n)) ys None"
    by (simp_all add: seg_mid)
  from d have nb': "n \<noteq> b" by auto
  have nx: "m < length h \<and> m \<noteq> b \<and> m \<noteq> n \<and> m \<in> set ys" if "next_b (h ! n) = Some m" for m
  proof -
    from sy that have "m \<in> set ys" by (rule seg_next_in) simp
    with d sy show ?thesis by (auto dest: seg_bound)
  qed
  show self: "?h ! b = (h ! b)\<lparr>size_b := size_b (h ! b) + size_b (h ! n), next_b := next_b (h ! n)\<rparr>"
    using b nb f n nb' nx by (intro merge_next_self) auto
  have other: "?h ! r = h ! r" if "r \<noteq> b" "next_b (h ! n) \<noteq> Some r" for r
    using b nb f n nb' that nx by (intro merge_next_other) auto
  have fx: "seg ?h None (Some hp) xs (Some b)"
  proof (rule seg_frame [OF sx])
    fix r assume r: "r \<in> set xs" "r < length h"
    with d have "r \<noteq> b" "r \<notin> set ys" by auto
    with nx have "next_b (h ! n) \<noteq> Some r" by blast
    with r \<open>r \<noteq> b\<close> show "r < length ?h \<and> prev (?h ! r) = prev (h ! r) \<and> next_b (?h ! r) = next_b (h ! r)"
      by (simp add: other)
  qed
  have fy: "seg ?h (Some b) (next_b (h ! n)) ys None"
  proof (cases ys)
    case Nil
    with sy show ?thesis by simp
  next
    case (Cons m ys')
    with sy have m: "next_b (h ! n) = Some m" "m < length h"
      and sy': "seg h (Some m) (next_b (h ! m)) ys' None" by auto
    from nx [OF m(1)] have mne: "m \<noteq> b" "m \<noteq> n" by simp_all
    have hm: "?h ! m = (h ! m)\<lparr>prev := Some b\<rparr>"
      using b nb f n nb' m mne by (rule merge_next_succ)
    have "seg ?h (Some m) (next_b (h ! m)) ys' None"
    proof (rule seg_frame [OF sy'])
      fix r assume r: "r \<in> set ys'" "r < length h"
      with d Cons have "r \<noteq> b" "r \<noteq> m" by auto
      with m have "next_b (h ! n) \<noteq> Some r" by simp
      with r \<open>r \<noteq> b\<close> show "r < length ?h \<and> prev (?h ! r) = prev (h ! r) \<and> next_b (?h ! r) = next_b (h ! r)"
        by (simp add: other)
    qed
    with m Cons hm show ?thesis by simp
  qed
  from fx fy b pb show "seg ?h None (Some hp) (xs @ b # ys) None"
    by (simp add: seg_mid self)
qed

lemma merge_next_noop:
  assumes "seg h None (Some hp) (xs @ b # ys) None"
    and "ys = [] \<or> \<not> free (h ! hd ys)"
  shows "merge_next h b = h"
proof -
  from assms(1) have sy: "seg h (Some b) (next_b (h ! b)) ys None" by (simp add: seg_mid)
  show ?thesis
  proof (cases ys)
    case Nil
    with sy show ?thesis by (simp add: merge_next_def)
  next
    case (Cons n ys')
    with sy assms(2) show ?thesis by (simp add: merge_next_def)
  qed
qed

lemma merge_prev_seg:
  assumes s: "seg h None (Some hp) (xs @ p # b # ys) None"
    and d: "distinct (xs @ p # b # ys)"
    and f: "free (h ! p)"
  shows "seg (merge_prev h b) None (Some hp) (xs @ p # ys) None"
    and "merge_prev h b ! p = (h ! p)\<lparr>size_b := size_b (h ! p) + size_b (h ! b), next_b := next_b (h ! b)\<rparr>"
proof -
  let ?h = "merge_prev h b"
  from s have sx: "seg h None (Some hp) xs (Some p)" and p: "p < length h"
    and pp: "prev (h ! p) = lastp None xs" and np: "next_b (h ! p) = Some b"
    and b: "b < length h" and pb: "prev (h ! b) = Some p"
    and sy: "seg h (Some b) (next_b (h ! b)) ys None"
    by (simp_all add: seg_mid)
  from d have pb': "p \<noteq> b" by auto
  have nx: "m < length h \<and> m \<noteq> b \<and> m \<noteq> p \<and> m \<in> set ys" if "next_b (h ! b) = Some m" for m
  proof -
    from sy that have "m \<in> set ys" by (rule seg_next_in) simp
    with d sy show ?thesis by (auto dest: seg_bound)
  qed
  show self: "?h ! p = (h ! p)\<lparr>size_b := size_b (h ! p) + size_b (h ! b), next_b := next_b (h ! b)\<rparr>"
    using b pb f p pb' nx by (intro merge_prev_self) auto
  have other: "?h ! r = h ! r" if "r \<noteq> p" "next_b (h ! b) \<noteq> Some r" for r
    using b pb f p pb' that nx by (intro merge_prev_other) auto
  have fx: "seg ?h None (Some hp) xs (Some p)"
  proof (rule seg_frame [OF sx])
    fix r assume r: "r \<in> set xs" "r < length h"
    with d have "r \<noteq> p" "r \<notin> set ys" by auto
    with nx have "next_b (h ! b) \<noteq> Some r" by blast
    with r \<open>r \<noteq> p\<close> show "r < length ?h \<and> prev (?h ! r) = prev (h ! r) \<and> next_b (?h ! r) = next_b (h ! r)"
      by (simp add: other)
  qed
  have fy: "seg ?h (Some p) (next_b (h ! b)) ys None"
  proof (cases ys)
    case Nil
    with sy show ?thesis by simp
  next
    case (Cons m ys')
    with sy have m: "next_b (h ! b) = Some m" "m < length h"
      and sy': "seg h (Some m) (next_b (h ! m)) ys' None" by auto
    from nx [OF m(1)] have mne: "m \<noteq> b" "m \<noteq> p" by simp_all
    have hm: "?h ! m = (h ! m)\<lparr>prev := Some p\<rparr>"
      using b pb f p pb' m mne by (rule merge_prev_succ)
    have "seg ?h (Some m) (next_b (h ! m)) ys' None"
    proof (rule seg_frame [OF sy'])
      fix r assume r: "r \<in> set ys'" "r < length h"
      with d Cons have "r \<noteq> p" "r \<noteq> m" by auto
      with m have "next_b (h ! b) \<noteq> Some r" by simp
      with r \<open>r \<noteq> p\<close> show "r < length ?h \<and> prev (?h ! r) = prev (h ! r) \<and> next_b (?h ! r) = next_b (h ! r)"
        by (simp add: other)
    qed
    with m Cons hm show ?thesis by simp
  qed
  from fx fy p pp show "seg ?h None (Some hp) (xs @ p # ys) None"
    by (simp add: seg_mid self)
qed

lemma merge_prev_noop:
  assumes "seg h None (Some hp) (xs @ b # ys) None"
    and "xs = [] \<or> \<not> free (h ! last xs)"
  shows "merge_prev h b = h"
proof -
  from assms(1) have pb: "prev (h ! b) = lastp None xs" by (simp add: seg_mid)
  show ?thesis
  proof (cases xs rule: rev_cases)
    case Nil
    with pb show ?thesis by (simp add: merge_prev_def)
  next
    case (snoc xs' p)
    with pb assms(2) show ?thesis by (simp add: merge_prev_def)
  qed
qed

lemma lastf_simps [simp]:
  "lastf pf [] = pf"
  "lastf pf ((st, sz, f) # vs) = lastf f vs"
  "lastf pf (vs @ [(st, sz, f)]) = f"
  by (simp_all add: lastf_def)

lemma extent_append [simp]: "extent (xs @ ys) = extent xs + extent ys"
  by (induction xs rule: extent.induct) auto

lemma tiled_append [simp]: "tiled s (xs @ ys) = (tiled s xs \<and> tiled (s + extent xs) ys)"
  by (induction s xs rule: tiled.induct) (auto simp: add.assoc)

lemma naf_append [simp]: "naf pf (xs @ ys) = (naf pf xs \<and> naf (lastf pf xs) ys)"
  by (induction pf xs rule: naf.induct) auto

lemma naf_weaken: "naf pf vs \<Longrightarrow> naf False vs"
  by (cases vs) auto

lemma allocate_block_exact_seg:
  assumes "seg h pv p rs q" "size_b (h ! c) = sz"
  shows "seg (snd (allocate_block h c sz)) pv p rs q"
  using assms(1) by (rule seg_frame) (simp add: allocate_block_exact [OF assms(2)] nth_upd)

lemma allocate_block_exact_views:
  assumes "distinct (xs @ c # ys)" "size_b (h ! c) = sz" "c < length h"
  shows "views (snd (allocate_block h c sz)) (xs @ c # ys) =
           views h xs @ (start (h ! c), sz, False) # views h ys"
proof -
  let ?h = "snd (allocate_block h c sz)"
  have "views ?h xs = views h xs" "views ?h ys = views h ys"
    using assms by (auto intro!: views_cong simp: allocate_block_exact nth_upd)
  moreover have "view (?h ! c) = (start (h ! c), sz, False)"
    using assms by (simp add: allocate_block_exact view_def)
  ultimately show ?thesis by simp
qed

lemma allocate_block_split_views:
  assumes s: "seg h None (Some hp) (xs @ c # ys) None"
    and d: "distinct (xs @ c # ys)"
    and ne: "size_b (h ! c) \<noteq> sz"
  shows "views (snd (allocate_block h c sz)) (xs @ c # length h # ys) =
           views h xs @ (start (h ! c), sz, False) #
             (start (h ! c) + sz, size_b (h ! c) - sz, True) # views h ys"
proof -
  let ?h = "snd (allocate_block h c sz)"
  from s have c: "c < length h" and sy: "seg h (Some c) (next_b (h ! c)) ys None"
    by (simp_all add: seg_mid)
  have nx: "n < length h \<and> n \<noteq> c" if "next_b (h ! c) = Some n" for n
  proof -
    from sy that have "n \<in> set ys" by (rule seg_next_in) simp
    with d sy show ?thesis by (auto dest: seg_bound)
  qed
  have bound: "r < length h" if "r \<in> set (xs @ c # ys)" for r
    using s that by (rule seg_bound)
  have "views ?h xs = views h xs" "views ?h ys = views h ys"
    using d bound by (auto intro!: views_cong allocate_block_view)
  moreover have "view (?h ! c) = (start (h ! c), sz, False)"
    using ne c nx by (simp add: allocate_block_split_self view_def)
  moreover have "view (?h ! length h) = (start (h ! c) + sz, size_b (h ! c) - sz, True)"
    using ne c nx by (simp add: allocate_block_split_new view_def)
  ultimately show ?thesis by simp
qed

(*LEMMAS-END*)

subsection \<open>The round trip on an arena of 100 units\<close>

text \<open>
  C9. From a new arena of 100 units, allocating 40, allocating 30, freeing the first
  block and allocating 35 returns a block at every allocation. After the release the
  printed lines are 0 to 39 free, 40 to 69 used, 70 to 99 free; after the last
  allocation they are 0 to 34 used, 35 to 39 free, 40 to 69 used, 70 to 99 free.
\<close>

theorem round_trip_scenario:
  "(case MemoryAllocator_init 100 [] of (a, h0) \<Rightarrow>
      (case first_fit h0 a 40 of
         Some (Some b1, h1) \<Rightarrow>
           (case first_fit h1 a 30 of
              Some (Some b2, h2) \<Rightarrow>
                (let h3 = free_block h2 b1 in
                   print_memory h3 a =
                     Some [(0, 39, 40, True), (40, 69, 30, False), (70, 99, 30, True)] \<and>
                   (case first_fit h3 a 35 of
                      Some (Some b4, h4) \<Rightarrow>
                        print_memory h4 a =
                          Some [(0, 34, 35, False), (35, 39, 5, True),
                                (40, 69, 30, False), (70, 99, 30, True)]
                    | _ \<Rightarrow> False))
            | _ \<Rightarrow> False)
       | _ \<Rightarrow> False))"
  by code_simp

end
